theory Spec2Isabelle
  imports Main "HOL-Library.Multiset"
begin

section \<open>The just-in-time queue of queue/jit.go\<close>

text \<open>
  The queue keeps a slice of entries ordered by their due time and a channel
  \<open>changed\<close> that is closed (and replaced) whenever the head entry changes.
  Producers call \<open>Add\<close> and \<open>Schedule\<close>; one consumer at a time runs the
  wait loop of \<open>Next\<close>; \<open>Destroy\<close> empties the queue and sets the channel
  to nil.

  Every section of the source that runs under the mutex \<open>mu\<close> is one function
  of the model. The wait loop of \<open>next\<close> releases \<open>mu\<close> while it blocks, so
  it is a small machine whose steps are interleaved with the calls of the
  other goroutines and with the passing of time (\<open>step\<close>, \<open>exec\<close>).
\<close>

subsection \<open>Data\<close>

text \<open>\<open>time.Time\<close> as a point on a line; \<open>Before\<close> and \<open>After\<close> are strict.\<close>

type_synonym time = int

abbreviation Before :: "time \<Rightarrow> time \<Rightarrow> bool" where
  "Before t u \<equiv> t < u"

abbreviation After :: "time \<Rightarrow> time \<Rightarrow> bool" where
  "After t u \<equiv> u < t"

text \<open>
  A \<open>time.Duration\<close> is a count of nanoseconds in 64 bits. \<open>time.Until(t)\<close>
  is \<open>t.Sub(time.Now())\<close>, and \<open>Sub\<close> returns the largest (or the smallest)
  duration when the difference does not fit; \<open>now\<close> is what \<open>time.Now()\<close>
  reads. Times are counted in nanoseconds.
\<close>

definition maxDuration :: int where
  "maxDuration = 2 ^ 63 - 1"

definition minDuration :: int where
  "minDuration = - (2 ^ 63)"

definition Until :: "time \<Rightarrow> time \<Rightarrow> int" where
  "Until t now =
     (if t - now > maxDuration then maxDuration
      else if t - now < minDuration then minDuration
      else t - now)"

text \<open>
  A payload is a value of Go's empty interface: \<open>nil\<close>, or a value of the
  caller's.
\<close>

datatype 'v item = nil | Val 'v

text \<open>
  A \<open>JITItem\<close> in the queue is either a pointer to a \<open>jitItem\<close> struct (what
  \<open>Schedule\<close> allocates), or a value of a caller's own type with a \<open>Time()\<close>
  method. The first field of \<open>jitItem\<close> is the address: the fields of the
  struct are never written after the allocation, so two pointers are \<open>==\<close>
  exactly when the values here are equal. The caller's values are taken to be
  comparable, and their \<open>Time()\<close> to depend on the value alone. The last field
  of \<open>Other\<close> says whether the caller's type also has the method \<open>getItem\<close>
  of the interface \<open>hasItem\<close>, and what it returns. Entries are never the nil
  interface: \<open>add\<close> and \<open>next\<close> call \<open>Time()\<close> on them.
\<close>

datatype ('v, 'c) JITItem =
    jitItem nat "'v item" time
  | Other 'c time "'v item option"

fun Time :: "('v, 'c) JITItem \<Rightarrow> time" where
  "Time (jitItem a x t) = t"
| "Time (Other c t g) = t"

text \<open>The type assertion \<open>next.(hasItem)\<close> followed by \<open>getItem()\<close>.\<close>

fun getItem :: "('v, 'c) JITItem \<Rightarrow> 'v item option" where
  "getItem (jitItem a x t) = Some x"
| "getItem (Other c t g) = g"

text \<open>What \<open>Next\<close> hands to its caller, again a value of the empty interface.\<close>

datatype ('v, 'c) result = Empty | Payload 'v | Entry "('v, 'c) JITItem"

text \<open>
  Channels are handles; \<open>closed\<close> lists the handles closed so far, in
  order, and \<open>chans\<close> counts the channels made, so that \<open>make\<close> returns a
  handle never seen before. \<open>changed = None\<close> is the nil channel.
\<close>

type_synonym chan = nat

record ('v, 'c) jitQueue =
  queue :: "('v, 'c) JITItem list"
  changed :: "chan option"
  closed :: "chan list"
  chans :: nat

text \<open>The two run-time panics of \<open>close\<close>.\<close>

datatype error = CloseOfNilChannel | CloseOfClosedChannel

subsection \<open>Construction, channels, sorting\<close>

definition NewJIT :: "('v, 'c) jitQueue" where
  "NewJIT = \<lparr>queue = [], changed = Some 0, closed = [], chans = 1\<rparr>"

definition close_chan :: "chan option \<Rightarrow> ('v, 'c) jitQueue \<Rightarrow> error + ('v, 'c) jitQueue" where
  "close_chan ch q =
     (case ch of
        None \<Rightarrow> Inl CloseOfNilChannel
      | Some c \<Rightarrow>
          if c \<in> set (closed q) then Inl CloseOfClosedChannel
          else Inr (q\<lparr>closed := closed q @ [c]\<rparr>))"

definition make_chan :: "('v, 'c) jitQueue \<Rightarrow> ('v, 'c) jitQueue" where
  "make_chan q = q\<lparr>changed := Some (chans q), chans := Suc (chans q)\<rparr>"

text \<open>\<open>jitSlice.Less\<close>: the order \<open>sort.Sort\<close> is given.\<close>

definition Less :: "('v, 'c) JITItem list \<Rightarrow> nat \<Rightarrow> nat \<Rightarrow> bool" where
  "Less s i j = Before (Time (s ! i)) (Time (s ! j))"

text \<open>
  \<open>sort.Sort\<close> belongs to the standard library. It is a parameter \<open>srt\<close> of
  the model, and \<open>sort_Sort\<close> is all that is asked of it: the result is a
  rearrangement of the slice in which no later element is \<open>Less\<close> than an
  earlier one. It need not be stable.
\<close>

definition sort_Sort :: "(('v, 'c) JITItem list \<Rightarrow> ('v, 'c) JITItem list) \<Rightarrow> bool" where
  "sort_Sort srt =
     (\<forall>s. mset (srt s) = mset s \<and>
          (\<forall>i j. i < j \<longrightarrow> j < length s \<longrightarrow> \<not> Less (srt s) j i))"

text \<open>
  The insertion sort that \<open>sort.Sort\<close> runs on a short slice: each element
  moves left while it is \<open>Less\<close> than its left neighbour. The sorted part of
  the slice is held back to front, so that the left neighbour is at the head.
\<close>

fun moveLeft :: "('v, 'c) JITItem list \<Rightarrow> ('v, 'c) JITItem \<Rightarrow> ('v, 'c) JITItem list" where
  "moveLeft [] x = [x]"
| "moveLeft (y # ys) x =
     (if Before (Time x) (Time y) then y # moveLeft ys x else x # y # ys)"

definition insertionSort :: "('v, 'c) JITItem list \<Rightarrow> ('v, 'c) JITItem list" where
  "insertionSort s = rev (foldl moveLeft [] s)"

subsection \<open>The operations under the mutex\<close>

definition isEmpty :: "('v, 'c) jitQueue \<Rightarrow> bool" where
  "isEmpty q = (length (queue q) = 0)"

definition IsEmpty :: "('v, 'c) jitQueue \<Rightarrow> bool" where
  "IsEmpty q = isEmpty q"

text \<open>
  \<open>add\<close>: nothing on a destroyed queue; otherwise append, keep the slice when
  the new entry is after the one before it, else sort, and close and replace
  \<open>changed\<close> unless the first entry is still the one read after the append.
\<close>

definition add ::
  "(('v, 'c) JITItem list \<Rightarrow> ('v, 'c) JITItem list) \<Rightarrow>
   ('v, 'c) jitQueue \<Rightarrow> ('v, 'c) JITItem \<Rightarrow> error + ('v, 'c) jitQueue" where
  "add srt q i =
     (if changed q = None then Inr q
      else
        let s = queue q @ [i];
            first = hd s
        in if length s > 1 \<and> After (Time (s ! (length s - 1))) (Time (s ! (length s - 2)))
           then Inr (q\<lparr>queue := s\<rparr>)
           else
             let s' = srt s
             in if length s' > 1 \<and> first = hd s' then Inr (q\<lparr>queue := s'\<rparr>)
                else (case close_chan (changed q) (q\<lparr>queue := s'\<rparr>) of
                        Inl e \<Rightarrow> Inl e
                      | Inr q' \<Rightarrow> Inr (make_chan q')))"

definition Add ::
  "(('v, 'c) JITItem list \<Rightarrow> ('v, 'c) JITItem list) \<Rightarrow>
   ('v, 'c) jitQueue \<Rightarrow> ('v, 'c) JITItem \<Rightarrow> error + ('v, 'c) jitQueue" where
  "Add srt q i = add srt q i"

text \<open>
  \<open>Schedule\<close> allocates a \<open>jitItem\<close> and adds the pointer to it; \<open>a\<close> is the
  address the allocation returns.
\<close>

definition Schedule ::
  "(('v, 'c) JITItem list \<Rightarrow> ('v, 'c) JITItem list) \<Rightarrow>
   ('v, 'c) jitQueue \<Rightarrow> nat \<Rightarrow> 'v item \<Rightarrow> time \<Rightarrow> error + ('v, 'c) jitQueue" where
  "Schedule srt q a i t = Add srt q (jitItem a i t)"

definition Destroy :: "('v, 'c) jitQueue \<Rightarrow> error + ('v, 'c) jitQueue" where
  "Destroy q =
     (case close_chan (changed q) (q\<lparr>queue := []\<rparr>) of
        Inl e \<Rightarrow> Inl e
      | Inr q' \<Rightarrow> Inr (q'\<lparr>changed := None\<rparr>))"

subsection \<open>The wait loop of next\<close>

text \<open>
  Where a call of \<open>Next\<close> stands between two sections under \<open>mu\<close>:
  at the head of the loop with the value of the variable \<open>i\<close>; blocked in
  \<open><-changed\<close> (then \<open>i\<close> is nil); blocked in the \<open>select\<close> on \<open>changed\<close> and
  the timer of \<open>i\<close>; or about to return what \<open>next\<close> returned. The last field
  of \<open>Select\<close> is the instant at which the timer fires.
\<close>

datatype ('v, 'c) frame =
    Loop "('v, 'c) JITItem option"
  | Recv chan
  | Select "('v, 'c) JITItem" chan time
  | Done "('v, 'c) JITItem option"

text \<open>
  The head of the loop, from \<open>q.mu.Lock()\<close> to the point where the call
  returns or blocks; \<open>now\<close> is what \<open>time.Now()\<close> reads. Before it blocks in
  the \<open>select\<close> the call arms the timer \<open>time.After(time.Until(i.Time()))\<close>,
  which fires once that duration has passed. The timer is armed at \<open>now\<close>: a
  later reading of the clock only makes it fire later.
\<close>

definition next_head ::
  "time \<Rightarrow> ('v, 'c) JITItem option \<Rightarrow> ('v, 'c) jitQueue \<Rightarrow> ('v, 'c) frame \<times> ('v, 'c) jitQueue" where
  "next_head now i q =
     (case changed q of
        None \<Rightarrow> (Done None, q)
      | Some c \<Rightarrow>
          if \<not> isEmpty q \<and> Before (Time (hd (queue q))) now
          then (Done (Some (hd (queue q))), q\<lparr>queue := tl (queue q)\<rparr>)
          else
            (case (if \<not> isEmpty q then Some (hd (queue q)) else i) of
               None \<Rightarrow> (Recv c, q)
             | Some e \<Rightarrow> (Select e c (now + Until (Time e) now), q)))"

text \<open>
  The timer case of the \<open>select\<close>, from \<open>q.mu.Lock()\<close> on, entered once the
  timer has fired. It does not read the clock.
\<close>

definition next_timer ::
  "('v, 'c) JITItem \<Rightarrow> ('v, 'c) jitQueue \<Rightarrow> ('v, 'c) frame \<times> ('v, 'c) jitQueue" where
  "next_timer i q =
     (if \<not> isEmpty q \<and> i = hd (queue q)
      then (Done (Some i), q\<lparr>queue := tl (queue q)\<rparr>)
      else (Loop (Some i), q))"

text \<open>What \<open>Next\<close> makes of the value \<open>next\<close> returned.\<close>

definition Next_value :: "('v, 'c) JITItem option \<Rightarrow> ('v, 'c) result" where
  "Next_value r =
     (case r of
        None \<Rightarrow> Empty
      | Some e \<Rightarrow>
          (case getItem e of
             Some nil \<Rightarrow> Empty
           | Some (Val v) \<Rightarrow> Payload v
           | None \<Rightarrow> Entry e))"

subsection \<open>The queue among its goroutines\<close>

text \<open>
  The world: the queue, the clock, the call of \<open>Next\<close> that holds \<open>nextMu\<close>
  (if any), and the log of what the calls of \<open>Next\<close> returned: the value
  \<open>next\<close> returned, the value \<open>Next\<close> returned, and the clock at that
  instant.
\<close>

record ('v, 'c) world =
  jq :: "('v, 'c) jitQueue"
  clock :: time
  call :: "('v, 'c) frame option"
  returns :: "(('v, 'c) JITItem option \<times> ('v, 'c) result \<times> time) list"

text \<open>
  Events: time passes; another goroutine calls \<open>Add\<close>, \<open>Schedule\<close>,
  \<open>Destroy\<close> or \<open>IsEmpty\<close>; a caller of \<open>Next\<close> takes \<open>nextMu\<close>; the call in
  progress runs the head of its loop, receives from \<open>changed\<close>, takes the
  timer case, or returns. An event whose goroutine is blocked (the channel is
  not closed, the timer has not fired, \<open>nextMu\<close> is held) leaves the world
  as it is.
\<close>

datatype ('v, 'c) event =
    Tick nat
  | DoAdd "('v, 'c) JITItem"
  | DoSchedule nat "'v item" time
  | DoDestroy
  | DoIsEmpty
  | CallNext
  | Check
  | OnChanged
  | OnTimer
  | Return

definition start :: "time \<Rightarrow> ('v, 'c) world" where
  "start t = \<lparr>jq = NewJIT, clock = t, call = None, returns = []\<rparr>"

definition with_queue ::
  "('v, 'c) world \<Rightarrow> error + ('v, 'c) jitQueue \<Rightarrow> error + ('v, 'c) world" where
  "with_queue w r = (case r of Inl e \<Rightarrow> Inl e | Inr q \<Rightarrow> Inr (w\<lparr>jq := q\<rparr>))"

definition resume ::
  "('v, 'c) world \<Rightarrow> ('v, 'c) frame \<times> ('v, 'c) jitQueue \<Rightarrow> ('v, 'c) world" where
  "resume w fq = w\<lparr>jq := snd fq, call := Some (fst fq)\<rparr>"

fun step ::
  "(('v, 'c) JITItem list \<Rightarrow> ('v, 'c) JITItem list) \<Rightarrow>
   ('v, 'c) event \<Rightarrow> ('v, 'c) world \<Rightarrow> error + ('v, 'c) world" where
  "step srt (Tick d) w = Inr (w\<lparr>clock := clock w + int d\<rparr>)"
| "step srt (DoAdd i) w = with_queue w (Add srt (jq w) i)"
| "step srt (DoSchedule a i t) w = with_queue w (Schedule srt (jq w) a i t)"
| "step srt DoDestroy w = with_queue w (Destroy (jq w))"
| "step srt DoIsEmpty w = Inr w"
| "step srt CallNext w =
     (case call w of None \<Rightarrow> Inr (w\<lparr>call := Some (Loop None)\<rparr>) | Some f \<Rightarrow> Inr w)"
| "step srt Check w =
     (case call w of
        Some (Loop i) \<Rightarrow> Inr (resume w (next_head (clock w) i (jq w)))
      | _ \<Rightarrow> Inr w)"
| "step srt OnChanged w =
     (case call w of
        Some (Recv c) \<Rightarrow>
          if c \<in> set (closed (jq w)) then Inr (w\<lparr>call := Some (Loop None)\<rparr>) else Inr w
      | Some (Select i c d) \<Rightarrow>
          if c \<in> set (closed (jq w)) then Inr (w\<lparr>call := Some (Loop (Some i))\<rparr>) else Inr w
      | _ \<Rightarrow> Inr w)"
| "step srt OnTimer w =
     (case call w of
        Some (Select i c d) \<Rightarrow>
          if d \<le> clock w then Inr (resume w (next_timer i (jq w))) else Inr w
      | _ \<Rightarrow> Inr w)"
| "step srt Return w =
     (case call w of
        Some (Done r) \<Rightarrow>
          Inr (w\<lparr>call := None, returns := returns w @ [(r, Next_value r, clock w)]\<rparr>)
      | _ \<Rightarrow> Inr w)"

fun exec ::
  "(('v, 'c) JITItem list \<Rightarrow> ('v, 'c) JITItem list) \<Rightarrow>
   ('v, 'c) event list \<Rightarrow> ('v, 'c) world \<Rightarrow> error + ('v, 'c) world" where
  "exec srt [] w = Inr w"
| "exec srt (e # es) w =
     (case step srt e w of Inl x \<Rightarrow> Inl x | Inr w' \<Rightarrow> exec srt es w')"

text \<open>One call of \<open>Next\<close> with nothing else running.\<close>

definition solo :: "('v, 'c) event list" where
  "solo = [CallNext, Check, OnTimer, Return]"

subsection \<open>Invariants and observations\<close>

text \<open>
  The channel in \<open>changed\<close> is one that \<open>make\<close> returned and that has not
  been closed; every closed channel is one that \<open>make\<close> returned.
\<close>

definition chan_ok :: "('v, 'c) jitQueue \<Rightarrow> bool" where
  "chan_ok q =
     ((\<forall>c \<in> set (closed q). c < chans q) \<and>
      (case changed q of None \<Rightarrow> True | Some c \<Rightarrow> c < chans q \<and> c \<notin> set (closed q)))"

text \<open>The entry an event puts into the queue, if it is a call of \<open>Add\<close> or \<open>Schedule\<close>.\<close>

fun inserted :: "('v, 'c) event \<Rightarrow> ('v, 'c) JITItem option" where
  "inserted (DoAdd i) = Some i"
| "inserted (DoSchedule a i t) = Some (jitItem a i t)"
| "inserted e = None"

text \<open>The events that leave the stored sequence to the consumer.\<close>

fun quiet :: "('v, 'c) event \<Rightarrow> bool" where
  "quiet (DoAdd i) = False"
| "quiet (DoSchedule a i t) = False"
| "quiet DoDestroy = False"
| "quiet e = True"

text \<open>
  \<open>next\<close> returns nil only on a destroyed queue, and the log holds what
  \<open>Next\<close> made of each value.
\<close>

definition nil_means_destroyed :: "('v, 'c) world \<Rightarrow> bool" where
  "nil_means_destroyed w =
     ((\<forall>(r, v, t) \<in> set (returns w). v = Next_value r \<and> (r = None \<longrightarrow> changed (jq w) = None)) \<and>
      (call w = Some (Done None) \<longrightarrow> changed (jq w) = None))"

text \<open>
  What the calls of \<open>Next\<close> have taken out of the queue so far: the values
  in the log, and the one a call is about to return.
\<close>

definition taken :: "('v, 'c) world \<Rightarrow> ('v, 'c) JITItem option list" where
  "taken w = map fst (returns w) @ (case call w of Some (Done r) \<Rightarrow> [r] | _ \<Rightarrow> [])"

text \<open>
  With no producer and no \<open>Destroy\<close> running, the calls of \<open>Next\<close> take the
  entries of the sequence \<open>s\<close> from its front, one by one.
\<close>

definition front_taken :: "('v, 'c) JITItem list \<Rightarrow> ('v, 'c) world \<Rightarrow> bool" where
  "front_taken s w =
     (changed (jq w) \<noteq> None \<and> s = map the (taken w) @ queue (jq w) \<and> None \<notin> set (taken w))"

text \<open>The number of times \<open>changed\<close> has been closed.\<close>

definition notifications :: "('v, 'c) jitQueue \<Rightarrow> nat" where
  "notifications q = length (closed q)"

section \<open>Properties\<close>

subsection \<open>Sorting\<close>

lemma sort_Sort_length: "sort_Sort srt \<Longrightarrow> length (srt s) = length s"
  unfolding sort_Sort_def by (metis size_mset)

lemma sort_Sort_mset: "sort_Sort srt \<Longrightarrow> mset (srt s) = mset s"
  unfolding sort_Sort_def by blast

lemma sort_Sort_sorted: "sort_Sort srt \<Longrightarrow> sorted (map Time (srt s))"
proof -
  assume a: "sort_Sort srt"
  have len: "length (srt s) = length s" using a by (rule sort_Sort_length)
  have "\<forall>i j. i < j \<longrightarrow> j < length (srt s) \<longrightarrow> Time (srt s ! i) \<le> Time (srt s ! j)"
    using a len unfolding sort_Sort_def Less_def by (metis not_le)
  then show ?thesis
    by (simp add: sorted_map sorted_wrt_iff_nth_less)
qed

lemma mset_moveLeft: "mset (moveLeft ys x) = add_mset x (mset ys)"
  by (induction ys) auto

lemma mset_foldl_moveLeft: "mset (foldl moveLeft acc s) = mset acc + mset s"
  by (induction s arbitrary: acc) (auto simp: mset_moveLeft)

lemma set_moveLeft: "set (moveLeft ys x) = insert x (set ys)"
  by (induction ys) auto

lemma desc_moveLeft:
  "sorted_wrt (\<lambda>a b. Time b \<le> Time a) ys \<Longrightarrow> sorted_wrt (\<lambda>a b. Time b \<le> Time a) (moveLeft ys x)"
  by (induction ys) (auto simp: set_moveLeft)

lemma desc_foldl_moveLeft:
  "sorted_wrt (\<lambda>a b. Time b \<le> Time a) acc \<Longrightarrow>
   sorted_wrt (\<lambda>a b. Time b \<le> Time a) (foldl moveLeft acc s)"
  by (induction s arbitrary: acc) (auto simp: desc_moveLeft)

lemma sorted_insertionSort: "sorted (map Time (insertionSort s))"
proof -
  have "sorted_wrt (\<lambda>a b. Time b \<le> Time a) (foldl moveLeft [] s)"
    by (rule desc_foldl_moveLeft) simp
  then show ?thesis
    unfolding insertionSort_def by (simp add: sorted_map sorted_wrt_rev)
qed

lemma mset_insertionSort: "mset (insertionSort s) = mset s"
  unfolding insertionSort_def by (simp add: mset_foldl_moveLeft)

lemma insertionSort_not_Less:
  assumes "i < j" "j < length s"
  shows "\<not> Less (insertionSort s) j i"
proof -
  have "length (insertionSort s) = length s" by (metis mset_insertionSort size_mset)
  with assms sorted_insertionSort[of s] show ?thesis
    unfolding Less_def by (simp add: sorted_map sorted_wrt_iff_nth_less not_less)
qed

lemma sort_Sort_insertionSort: "sort_Sort insertionSort"
  unfolding sort_Sort_def by (simp add: mset_insertionSort insertionSort_not_Less)


lemma add_destroyed: "changed q = None \<Longrightarrow> add srt q i = Inr q"
  by (simp add: add_def)

lemma nth_before_last: "s \<noteq> [] \<Longrightarrow> (s @ [i]) ! (length s - Suc 0) = last s"
  by (simp add: nth_append last_conv_nth)

lemma add_live:
  assumes srt: "sort_Sort srt" and ok: "chan_ok q" and c: "changed q = Some c"
  shows "add srt q i =
    Inr (if queue q \<noteq> [] \<and> Time (last (queue q)) < Time i then q\<lparr>queue := queue q @ [i]\<rparr>
         else if queue q \<noteq> [] \<and> hd (queue q) = hd (srt (queue q @ [i]))
         then q\<lparr>queue := srt (queue q @ [i])\<rparr>
         else q\<lparr>queue := srt (queue q @ [i]), closed := closed q @ [c],
                changed := Some (chans q), chans := Suc (chans q)\<rparr>)"
proof -
  have len: "length (srt (queue q @ [i])) = Suc (length (queue q))"
    using srt by (simp add: sort_Sort_length)
  have notin: "c \<notin> set (closed q)"
    using ok c by (simp add: chan_ok_def)
  show ?thesis
  proof (cases "queue q = []")
    case True
    then show ?thesis
      using len notin c by (simp add: add_def Let_def close_chan_def make_chan_def)
  next
    case False
    then have l: "(queue q @ [i]) ! (length (queue q) - Suc 0) = last (queue q)"
      by (rule nth_before_last)
    from False show ?thesis
      using len notin c l by (simp add: add_def Let_def close_chan_def make_chan_def)
  qed
qed

lemma add_chan_ok:
  assumes "sort_Sort srt" "chan_ok q"
  shows "\<exists>q'. add srt q i = Inr q' \<and> chan_ok q'"
proof (cases "changed q")
  case None
  then show ?thesis using assms by (simp add: add_destroyed)
next
  case (Some c)
  have "c < chans q" "c \<notin> set (closed q)" "\<forall>d\<in>set (closed q). d < chans q"
    using assms(2) Some by (auto simp: chan_ok_def)
  then show ?thesis
    using assms Some by (auto simp: add_live [OF assms Some] chan_ok_def less_Suc_eq)
qed

lemma add_queue:
  assumes "sort_Sort srt" "chan_ok q" "changed q \<noteq> None" "add srt q i = Inr q'"
  shows "mset (queue q') = add_mset i (mset (queue q))"
proof -
  obtain c where c: "changed q = Some c" using assms(3) by auto
  show ?thesis
    using assms(4) by (auto simp: add_live [OF assms(1,2) c] sort_Sort_mset [OF assms(1)] split: if_splits)
qed

lemma add_sorted:
  assumes srt: "sort_Sort srt" and s: "sorted (map Time (queue q))" and a: "add srt q i = Inr q'"
  shows "sorted (map Time (queue q'))"
proof (cases "changed q")
  case None
  then show ?thesis using a s by (simp add: add_destroyed)
next
  case (Some c)
  let ?s = "queue q @ [i]"
  have fast: "sorted (map Time ?s)" if "queue q \<noteq> []" "Time (last (queue q)) < Time i"
  proof -
    have "\<forall>x\<in>set (queue q). Time x \<le> Time (last (queue q))"
    proof
      fix x assume "x \<in> set (queue q)"
      then obtain k where k: "k < length (queue q)" "queue q ! k = x"
        by (auto simp: in_set_conv_nth)
      have "map Time (queue q) ! k \<le> map Time (queue q) ! (length (queue q) - 1)"
        using s k(1) by (intro sorted_nth_mono) auto
      then show "Time x \<le> Time (last (queue q))"
        using k that(1) by (simp add: last_conv_nth)
    qed
    then show ?thesis using s that(2) by (fastforce simp: sorted_append)
  qed
  have "queue q' = ?s \<and> queue q \<noteq> [] \<and> Time (last (queue q)) < Time i \<or> queue q' = srt ?s"
    using a Some
    by (auto simp: add_def Let_def close_chan_def make_chan_def nth_append last_conv_nth
             split: if_splits)
  then show ?thesis using fast sort_Sort_sorted [OF srt] by auto
qed

subsection \<open>A destroyed queue\<close>

lemma Destroy_Inr: "Destroy q = Inr q0 \<Longrightarrow> queue q0 = [] \<and> changed q0 = None"
  by (auto simp: Destroy_def close_chan_def split: option.splits if_splits)

lemma step_destroyed:
  assumes "queue (jq w) = []" "changed (jq w) = None" "e \<noteq> DoDestroy"
  shows "\<exists>w'. step srt e w = Inr w' \<and> queue (jq w') = [] \<and> changed (jq w') = None"
proof (cases e)
  case Check
  then show ?thesis using assms
    by (auto simp: resume_def next_head_def split: option.splits frame.splits)
next
  case OnTimer
  then show ?thesis using assms
    by (auto simp: resume_def next_timer_def isEmpty_def split: option.splits frame.splits)
qed (use assms in \<open>auto simp: with_queue_def Add_def Schedule_def add_destroyed
        split: option.splits frame.splits\<close>)

lemma exec_destroyed:
  assumes "queue (jq w) = []" "changed (jq w) = None" "DoDestroy \<notin> set es"
  shows "\<exists>w'. exec srt es w = Inr w' \<and> queue (jq w') = [] \<and> changed (jq w') = None"
  using assms
proof (induction es arbitrary: w)
  case Nil
  then show ?case by simp
next
  case (Cons e es)
  then obtain w1 where w1: "step srt e w = Inr w1" "queue (jq w1) = []" "changed (jq w1) = None"
    using step_destroyed [of w e srt] by auto
  with Cons show ?case by simp
qed

text \<open>
  Claim C8. On a destroyed queue (\<open>changed\<close> is nil) \<open>Add\<close> and \<open>Schedule\<close>
  return without an error and leave the queue exactly as it was: the entry is
  not inserted, the stored sequence is the same, and no channel is closed.
\<close>

theorem destroyed_add_noop:
  "changed q = None \<Longrightarrow> Add srt q i = Inr q \<and> Schedule srt q a x t = Inr q"
  by (simp add: Add_def Schedule_def add_destroyed)

theorem destroyed_add_noop_witness:
  "changed \<lparr>queue = [], changed = None, closed = [0], chans = 1\<rparr> = None \<and>
   Add insertionSort \<lparr>queue = [], changed = None, closed = [0], chans = 1\<rparr> (Other (1::nat) 5 None)
     = Inr \<lparr>queue = ([] :: (nat, nat) JITItem list), changed = None, closed = [0], chans = 1\<rparr> \<and>
   Schedule insertionSort \<lparr>queue = [], changed = None, closed = [0], chans = 1\<rparr> 0 (Val (7::nat)) 5
     = Inr \<lparr>queue = ([] :: (nat, nat) JITItem list), changed = None, closed = [0], chans = 1\<rparr>"
  using destroyed_add_noop [of "\<lparr>queue = ([] :: (nat, nat) JITItem list), changed = None, closed = [0], chans = 1\<rparr>"
      insertionSort "Other 1 5 None" 0 "Val 7" 5]
  by simp

text \<open>
  Claim C5 says that every operation, \<open>Destroy\<close> included, completes without
  a panic on a destroyed queue. \<open>add\<close> and \<open>next\<close> test \<open>changed\<close> for nil
  first; \<open>Destroy\<close> does not, and its \<open>close(q.changed)\<close> panics on the nil
  channel the first \<open>Destroy\<close> left: a new queue destroyed twice.
\<close>

theorem Destroy_twice_panics:
  "Destroy (NewJIT :: (nat, nat) jitQueue) = Inr \<lparr>queue = [], changed = None, closed = [0], chans = 1\<rparr> \<and>
   Destroy \<lparr>queue = ([] :: (nat, nat) JITItem list), changed = None, closed = [0], chans = 1\<rparr>
     = Inl CloseOfNilChannel \<and>
   exec insertionSort [DoDestroy, DoDestroy] (start 0 :: (nat, nat) world) = Inl CloseOfNilChannel"
  by (simp add: Destroy_def NewJIT_def close_chan_def start_def with_queue_def)

text \<open>
  Claim C10. After \<open>Destroy\<close> the stored sequence is empty and \<open>IsEmpty\<close> is
  true, and whatever calls of \<open>Add\<close>, \<open>Schedule\<close>, \<open>IsEmpty\<close> and \<open>Next\<close>
  follow (any events but another \<open>Destroy\<close>, at any times), they all complete
  and the sequence is still empty.
\<close>

theorem destroyed_stays_empty:
  assumes "Destroy q = Inr q0" "DoDestroy \<notin> set es"
  shows "IsEmpty q0 \<and>
         (\<exists>w'. exec srt es (w\<lparr>jq := q0\<rparr>) = Inr w' \<and> IsEmpty (jq w') \<and> queue (jq w') = [])"
proof -
  have q0: "queue q0 = []" "changed q0 = None"
    using Destroy_Inr [OF assms(1)] by auto
  then show ?thesis
    using exec_destroyed [of "w\<lparr>jq := q0\<rparr>" es srt] assms(2)
    by (auto simp: IsEmpty_def isEmpty_def)
qed

theorem destroyed_stays_empty_witness:
  "Destroy (NewJIT :: (nat, nat) jitQueue) = Inr \<lparr>queue = [], changed = None, closed = [0], chans = 1\<rparr> \<and>
   DoDestroy \<notin> set [DoSchedule 0 (Val (7::nat)) 1, DoAdd (Other (1::nat) 2 None), Tick 5, CallNext, Check, Return, DoIsEmpty] \<and>
   IsEmpty \<lparr>queue = ([] :: (nat, nat) JITItem list), changed = None, closed = [0], chans = 1\<rparr> \<and>
   (\<exists>w'. exec insertionSort
            [DoSchedule 0 (Val (7::nat)) 1, DoAdd (Other (1::nat) 2 None), Tick 5, CallNext, Check, Return, DoIsEmpty]
            ((start 0)\<lparr>jq := \<lparr>queue = [], changed = None, closed = [0], chans = 1\<rparr>\<rparr>) = Inr w' \<and>
         IsEmpty (jq w') \<and> queue (jq w') = [])"
proof -
  have d: "Destroy (NewJIT :: (nat, nat) jitQueue) = Inr \<lparr>queue = [], changed = None, closed = [0], chans = 1\<rparr>"
    by (simp add: Destroy_def NewJIT_def close_chan_def)
  have n: "DoDestroy \<notin> set [DoSchedule 0 (Val (7::nat)) 1, DoAdd (Other (1::nat) 2 None), Tick 5, CallNext, Check, Return, DoIsEmpty]"
    by simp
  from destroyed_stays_empty [OF d n, of insertionSort "start 0"] d n show ?thesis
    by simp
qed

subsection \<open>Notification\<close>

text \<open>
  Claim C7. A call of \<open>Add\<close> on a live queue closes the channel \<open>changed\<close>
  exactly once when the queue was empty or the entry at position 0 after the
  call is not (by \<open>==\<close>) the one that was there before, and does not close any
  channel otherwise.
\<close>

theorem add_notifies_iff_head_changed:
  assumes "sort_Sort srt" "chan_ok q" "changed q = Some c"
  shows "\<exists>q'. Add srt q i = Inr q' \<and>
           closed q' = (if queue q = [] \<or> hd (queue q') \<noteq> hd (queue q)
                        then closed q @ [c] else closed q) \<and>
           notifications q' = notifications q +
             (if queue q = [] \<or> hd (queue q') \<noteq> hd (queue q) then 1 else 0)"
  by (auto simp: Add_def add_live [OF assms] notifications_def)

theorem add_notifies_iff_head_changed_witness:
  "sort_Sort (insertionSort :: (nat, nat) JITItem list \<Rightarrow> (nat, nat) JITItem list) \<and>
   chan_ok \<lparr>queue = [Other (1::nat) 5 (None :: nat item option)], changed = Some 1, closed = [0], chans = 2\<rparr> \<and>
   Add insertionSort \<lparr>queue = [Other (1::nat) 5 (None :: nat item option)], changed = Some 1, closed = [0], chans = 2\<rparr>
       (Other 2 3 None) =
     Inr \<lparr>queue = [Other 2 3 None, Other 1 5 None], changed = Some 2, closed = [0, 1], chans = 3\<rparr> \<and>
   (\<exists>q'. Add insertionSort \<lparr>queue = [Other (1::nat) 5 (None :: nat item option)], changed = Some 1, closed = [0], chans = 2\<rparr>
            (Other 2 3 None) = Inr q' \<and>
         closed q' = [0, 1] \<and>
         notifications q' = Suc (notifications \<lparr>queue = [Other (1::nat) 5 (None :: nat item option)], changed = Some 1, closed = [0], chans = 2\<rparr>))"
proof -
  let ?q = "\<lparr>queue = [Other (1::nat) 5 (None :: nat item option)], changed = Some 1, closed = [0], chans = 2\<rparr>"
  have s: "sort_Sort (insertionSort :: (nat, nat) JITItem list \<Rightarrow> (nat, nat) JITItem list)"
    by (rule sort_Sort_insertionSort)
  have ok: "chan_ok ?q" by (simp add: chan_ok_def)
  have c: "changed ?q = Some 1" by simp
  have a: "Add insertionSort ?q (Other 2 3 None) =
     Inr \<lparr>queue = [Other 2 3 None, Other 1 5 None], changed = Some 2, closed = [0, 1], chans = 3\<rparr>"
    by (simp add: Add_def add_def Let_def close_chan_def make_chan_def insertionSort_def)
  from add_notifies_iff_head_changed [OF s ok c, of "Other 2 3 None"] a
  have "\<exists>q'. Add insertionSort ?q (Other 2 3 None) = Inr q' \<and> closed q' = [0, 1] \<and>
         notifications q' = Suc (notifications ?q)"
    by (simp add: notifications_def)
  with s ok a show ?thesis by simp
qed

subsection \<open>Runs\<close>

lemmas run_simps =
  start_def NewJIT_def with_queue_def Add_def Schedule_def add_def Let_def close_chan_def
  make_chan_def insertionSort_def resume_def next_head_def next_timer_def isEmpty_def
  Next_value_def solo_def Destroy_def Until_def maxDuration_def minDuration_def

lemma exec_append:
  "exec srt (as @ bs) w = (case exec srt as w of Inl x \<Rightarrow> Inl x | Inr w1 \<Rightarrow> exec srt bs w1)"
  by (induction as arbitrary: w) (auto split: sum.splits)

lemma exec_preserves:
  assumes st: "\<And>e u u'. P u \<Longrightarrow> step srt e u = Inr u' \<Longrightarrow> P u'"
  shows "P w \<Longrightarrow> exec srt es w = Inr w' \<Longrightarrow> P w'"
proof (induction es arbitrary: w)
  case Nil
  then show ?case by simp
next
  case (Cons e es)
  then show ?case using st by (auto split: sum.splits)
qed

lemma step_returns_cases:
  assumes "step srt e w = Inr w'"
  shows "returns w' = returns w \<or>
         (\<exists>r. call w = Some (Done r) \<and> returns w' = returns w @ [(r, Next_value r, clock w)] \<and>
              call w' = None \<and> jq w' = jq w)"
  using assms
  by (cases e) (auto simp: with_queue_def resume_def split: option.splits frame.splits sum.splits if_splits)

subsection \<open>The stored sequence is sorted\<close>

lemma sorted_tl_Time: "sorted (map Time s) \<Longrightarrow> sorted (map Time (tl s))"
  by (cases s) auto

lemma step_queue_cases:
  assumes "step srt e w = Inr w'"
  shows "jq w' = jq w \<or> jq w' = (jq w)\<lparr>queue := tl (queue (jq w))\<rparr> \<or>
         (\<exists>i. add srt (jq w) i = Inr (jq w')) \<or> Destroy (jq w) = Inr (jq w')"
proof (cases e)
  case Check
  then show ?thesis using assms
    by (auto simp: resume_def next_head_def split: option.splits frame.splits)
next
  case OnTimer
  then show ?thesis using assms
    by (auto simp: resume_def next_timer_def split: option.splits frame.splits if_splits)
qed (use assms in \<open>auto simp: with_queue_def Add_def Schedule_def
        split: option.splits frame.splits sum.splits if_splits\<close>)

lemma step_sorted:
  assumes "sort_Sort srt" "sorted (map Time (queue (jq w)))" "step srt e w = Inr w'"
  shows "sorted (map Time (queue (jq w')))"
  using step_queue_cases [OF assms(3)] assms(1,2)
  by (auto simp: sorted_tl_Time dest: add_sorted Destroy_Inr)

text \<open>
  Claim C6. The sequence of a new queue is sorted by due time, and every event
  (a call of \<open>Add\<close>, \<open>Schedule\<close> or \<open>Destroy\<close>, a step of \<open>Next\<close>, time
  passing) keeps it so: in every state reached from a state whose adjacent
  entries are in order, in particular from \<open>NewJIT\<close>, each entry is due no
  later than the one after it.
\<close>

theorem queue_stays_sorted:
  assumes "sort_Sort srt"
      and "\<forall>k. Suc k < length (queue (jq w)) \<longrightarrow> Time (queue (jq w) ! k) \<le> Time (queue (jq w) ! Suc k)"
      and "exec srt es w = Inr w'"
  shows "\<forall>k. Suc k < length (queue (jq w')) \<longrightarrow> Time (queue (jq w') ! k) \<le> Time (queue (jq w') ! Suc k)"
proof -
  have "sorted (map Time (queue (jq w)))"
    using assms(2) by (simp add: sorted_iff_nth_Suc)
  then have "sorted (map Time (queue (jq w')))"
    using assms(3)
    by (rule exec_preserves [where P = "\<lambda>u. sorted (map Time (queue (jq u)))", rotated])
       (rule step_sorted [OF assms(1)])
  then show ?thesis by (simp add: sorted_iff_nth_Suc)
qed

theorem queue_stays_sorted_witness:
  "sort_Sort (insertionSort :: (nat, nat) JITItem list \<Rightarrow> (nat, nat) JITItem list) \<and>
   exec insertionSort
     [DoAdd (Other (1::nat) 5 None), DoAdd (Other 2 7 None), DoSchedule 0 (Val (9::nat)) 6,
      DoAdd (Other 4 1 None), Tick 3, CallNext, Check, Return]
     (start 0) =
     Inr \<lparr>jq = \<lparr>queue = [Other 1 5 None, jitItem 0 (Val 9) 6, Other 2 7 None],
                 changed = Some 2, closed = [0, 1], chans = 3\<rparr>,
           clock = 3, call = None,
           returns = [(Some (Other 4 1 None), Entry (Other 4 1 None), 3)]\<rparr> \<and>
   Time (Other (1::nat) 5 (None :: nat item option)) \<le> Time (jitItem 0 (Val (9::nat)) 6 :: (nat, nat) JITItem) \<and>
   Time (jitItem 0 (Val (9::nat)) 6 :: (nat, nat) JITItem) \<le> Time (Other (2::nat) 7 (None :: nat item option))"
proof -
  let ?es = "[DoAdd (Other (1::nat) 5 None), DoAdd (Other 2 7 None), DoSchedule 0 (Val (9::nat)) 6,
      DoAdd (Other 4 1 None), Tick 3, CallNext, Check, Return]"
  let ?w = "\<lparr>jq = \<lparr>queue = [Other (1::nat) 5 None, jitItem 0 (Val (9::nat)) 6, Other 2 7 None],
                 changed = Some 2, closed = [0, 1], chans = 3\<rparr>,
           clock = 3, call = None,
           returns = [(Some (Other 4 1 None), Entry (Other 4 1 None), 3)]\<rparr>"
  have s: "sort_Sort (insertionSort :: (nat, nat) JITItem list \<Rightarrow> (nat, nat) JITItem list)"
    by (rule sort_Sort_insertionSort)
  have i: "\<forall>k. Suc k < length (queue (jq (start 0 :: (nat, nat) world))) \<longrightarrow>
             Time (queue (jq (start 0 :: (nat, nat) world)) ! k) \<le> Time (queue (jq (start 0 :: (nat, nat) world)) ! Suc k)"
    by (simp add: start_def NewJIT_def)
  have e: "exec insertionSort ?es (start 0) = Inr ?w"
    by (simp add: run_simps)
  have "\<forall>k. Suc k < length (queue (jq ?w)) \<longrightarrow> Time (queue (jq ?w) ! k) \<le> Time (queue (jq ?w) ! Suc k)"
    by (rule queue_stays_sorted [OF s i e])
  then have "Time (queue (jq ?w) ! 0) \<le> Time (queue (jq ?w) ! Suc 0) \<and>
             Time (queue (jq ?w) ! Suc 0) \<le> Time (queue (jq ?w) ! Suc (Suc 0))"
    by simp
  with s e show ?thesis by simp
qed

subsection \<open>The timer and the due time\<close>

lemma Until_in_range:
  "minDuration \<le> t - now \<Longrightarrow> t - now \<le> maxDuration \<Longrightarrow> now + Until t now = t"
  by (simp add: Until_def)

lemma Until_past: "t \<le> now \<Longrightarrow> now + Until t now \<le> now"
  by (simp add: Until_def maxDuration_def minDuration_def)

lemma Until_far: "maxDuration < t - now \<Longrightarrow> now + Until t now < t"
  by (simp add: Until_def)


subsection \<open>The channel of a reachable queue\<close>

lemma chan_ok_NewJIT: "chan_ok NewJIT"
  by (simp add: chan_ok_def NewJIT_def)

lemma Destroy_chan_ok: "chan_ok q \<Longrightarrow> Destroy q = Inr q' \<Longrightarrow> chan_ok q'"
  by (auto simp: chan_ok_def Destroy_def close_chan_def split: option.splits if_splits)

lemma step_chan_ok:
  assumes "sort_Sort srt" "chan_ok (jq w)" "step srt e w = Inr w'"
  shows "chan_ok (jq w')"
proof -
  have "chan_ok ((jq w)\<lparr>queue := tl (queue (jq w))\<rparr>)"
    using assms(2) by (auto simp: chan_ok_def split: option.splits)
  moreover have "chan_ok q'" if "add srt (jq w) i = Inr q'" for i q'
    using add_chan_ok [OF assms(1,2), of i] that by auto
  ultimately show ?thesis
    using step_queue_cases [OF assms(3)] assms(2) by (auto dest: Destroy_chan_ok)
qed

lemma exec_chan_ok:
  assumes "sort_Sort srt" "chan_ok (jq w)" "exec srt es w = Inr w'"
  shows "chan_ok (jq w')"
  using assms(2,3)
  by (rule exec_preserves [where P = "\<lambda>u. chan_ok (jq u)", rotated]) (rule step_chan_ok [OF assms(1)])

subsection \<open>The head of the loop\<close>

lemma solo_Next:
  assumes "changed (jq w) = Some c" "queue (jq w) = e # rest" "Time e \<le> clock w" "call w = None"
  shows "exec srt solo w =
         Inr (w\<lparr>jq := (jq w)\<lparr>queue := rest\<rparr>, call := None,
                returns := returns w @ [(Some e, Next_value (Some e), clock w)]\<rparr>)"
  using assms
  by (cases "Time e < clock w")
     (simp_all add: solo_def resume_def next_head_def next_timer_def isEmpty_def Until_def
        maxDuration_def minDuration_def)

text \<open>
  Claim C3, amended. At the head of the loop of \<open>next\<close>, on a live queue
  with a head entry: when the due time of the head is strictly before the
  current time, the head is removed and \<open>Next\<close> returns its payload without
  waiting. When it is not (in particular when it equals the current time), the
  head stays in the sequence and the call enters the \<open>select\<close>; at equality
  the timer has fired already, and the timer case then removes and returns the
  head at that same instant.
\<close>

theorem head_due_pops:
  assumes "changed (jq w) = Some c" "queue (jq w) = e # rest" "call w = Some (Loop i)"
  shows "(Before (Time e) (clock w) \<longrightarrow>
            exec srt [Check, Return] w =
              Inr (w\<lparr>jq := (jq w)\<lparr>queue := rest\<rparr>, call := None,
                     returns := returns w @ [(Some e, Next_value (Some e), clock w)]\<rparr>)) \<and>
         (\<not> Before (Time e) (clock w) \<longrightarrow>
            exec srt [Check] w =
              Inr (w\<lparr>call := Some (Select e c (clock w + Until (Time e) (clock w)))\<rparr>)) \<and>
         (Time e = clock w \<longrightarrow>
            exec srt [Check, OnTimer, Return] w =
              Inr (w\<lparr>jq := (jq w)\<lparr>queue := rest\<rparr>, call := None,
                     returns := returns w @ [(Some e, Next_value (Some e), clock w)]\<rparr>))"
  using assms
  by (simp add: resume_def next_head_def next_timer_def isEmpty_def Until_def maxDuration_def
        minDuration_def)

theorem head_due_pops_witness:
  "Before (Time (jitItem 0 (Val (7::nat)) 5 :: (nat, nat) JITItem)) 6 \<and>
   exec insertionSort [Check, Return]
     \<lparr>jq = \<lparr>queue = [jitItem 0 (Val (7::nat)) 5 :: (nat, nat) JITItem], changed = Some 1, closed = [0], chans = 2\<rparr>,
      clock = 6, call = Some (Loop None), returns = []\<rparr> =
     Inr \<lparr>jq = \<lparr>queue = [], changed = Some 1, closed = [0], chans = 2\<rparr>,
           clock = 6, call = None, returns = [(Some (jitItem 0 (Val 7) 5), Payload 7, 6)]\<rparr> \<and>
   \<not> Before (Time (jitItem 0 (Val (7::nat)) 5 :: (nat, nat) JITItem)) 5 \<and>
   exec insertionSort [Check]
     \<lparr>jq = \<lparr>queue = [jitItem 0 (Val (7::nat)) 5 :: (nat, nat) JITItem], changed = Some 1, closed = [0], chans = 2\<rparr>,
      clock = 5, call = Some (Loop None), returns = []\<rparr> =
     Inr \<lparr>jq = \<lparr>queue = [jitItem 0 (Val 7) 5], changed = Some 1, closed = [0], chans = 2\<rparr>,
           clock = 5, call = Some (Select (jitItem 0 (Val 7) 5) 1 5), returns = []\<rparr> \<and>
   Time (jitItem 0 (Val (7::nat)) 5 :: (nat, nat) JITItem) = 5 \<and>
   exec insertionSort [Check, OnTimer, Return]
     \<lparr>jq = \<lparr>queue = [jitItem 0 (Val (7::nat)) 5 :: (nat, nat) JITItem], changed = Some 1, closed = [0], chans = 2\<rparr>,
      clock = 5, call = Some (Loop None), returns = []\<rparr> =
     Inr \<lparr>jq = \<lparr>queue = [], changed = Some 1, closed = [0], chans = 2\<rparr>,
           clock = 5, call = None, returns = [(Some (jitItem 0 (Val 7) 5), Payload 7, 5)]\<rparr>"
proof -
  let ?q = "\<lparr>queue = [jitItem 0 (Val (7::nat)) 5 :: (nat, nat) JITItem], changed = Some 1, closed = [0], chans = 2\<rparr>"
  let ?w6 = "\<lparr>jq = ?q, clock = 6, call = Some (Loop None), returns = []\<rparr>"
  let ?w5 = "\<lparr>jq = ?q, clock = 5, call = Some (Loop None), returns = []\<rparr>"
  have a: "changed (jq ?w6) = Some 1" "queue (jq ?w6) = [jitItem 0 (Val 7) 5]" "call ?w6 = Some (Loop None)"
    by simp_all
  have b: "changed (jq ?w5) = Some 1" "queue (jq ?w5) = [jitItem 0 (Val 7) 5]" "call ?w5 = Some (Loop None)"
    by simp_all
  have t: "Before (Time (jitItem 0 (Val (7::nat)) 5 :: (nat, nat) JITItem)) (clock ?w6)"
    "\<not> Before (Time (jitItem 0 (Val (7::nat)) 5 :: (nat, nat) JITItem)) (clock ?w5)"
    "Time (jitItem 0 (Val (7::nat)) 5 :: (nat, nat) JITItem) = clock ?w5"
    by simp_all
  from head_due_pops [OF a, of insertionSort] t(1)
  have r6: "exec insertionSort [Check, Return] ?w6 =
      Inr (?w6\<lparr>jq := (jq ?w6)\<lparr>queue := []\<rparr>, call := None,
             returns := returns ?w6 @ [(Some (jitItem 0 (Val 7) 5), Next_value (Some (jitItem 0 (Val 7) 5)), clock ?w6)]\<rparr>)"
    by blast
  from head_due_pops [OF b, of insertionSort] t(2)
  have r5: "exec insertionSort [Check] ?w5 =
      Inr (?w5\<lparr>call := Some (Select (jitItem 0 (Val 7) 5) 1
                               (clock ?w5 + Until (Time (jitItem 0 (Val 7) 5 :: (nat, nat) JITItem)) (clock ?w5)))\<rparr>)"
    by blast
  from head_due_pops [OF b, of insertionSort] t(3)
  have r5': "exec insertionSort [Check, OnTimer, Return] ?w5 =
      Inr (?w5\<lparr>jq := (jq ?w5)\<lparr>queue := []\<rparr>, call := None,
             returns := returns ?w5 @ [(Some (jitItem 0 (Val 7) 5), Next_value (Some (jitItem 0 (Val 7) 5)), clock ?w5)]\<rparr>)"
    by blast
  show ?thesis
    using r6 r5 r5'
    by (simp add: Next_value_def Until_def maxDuration_def minDuration_def del: exec.simps)
qed

text \<open>
  Claim C3 as stated includes a head due exactly at the current time. The
  test is \<open>i.Time().Before(time.Now())\<close>: on a new queue with one entry
  scheduled for time 5, a call of \<open>Next\<close> whose loop head runs at time 5
  leaves the entry in the queue and waits in the \<open>select\<close>.
\<close>

theorem head_due_at_now_waits:
  "Time (jitItem 0 (Val (7::nat)) 5 :: (nat, nat) JITItem) \<le> 5 \<and>
   exec insertionSort [DoSchedule 0 (Val (7::nat)) 5, CallNext, Check] (start 5 :: (nat, nat) world) =
     Inr \<lparr>jq = \<lparr>queue = [jitItem 0 (Val 7) 5], changed = Some 1, closed = [0], chans = 2\<rparr>,
           clock = 5, call = Some (Select (jitItem 0 (Val 7) 5) 1 5), returns = []\<rparr>"
  by (simp add: run_simps)

subsection \<open>The empty result\<close>

lemma step_changed_None:
  assumes "step srt e w = Inr w'" "changed (jq w) = None"
  shows "changed (jq w') = None"
  using assms
  by (cases e)
     (auto simp: with_queue_def resume_def next_head_def next_timer_def Add_def Schedule_def
                 add_destroyed Destroy_def close_chan_def
           split: option.splits frame.splits sum.splits if_splits)

lemma step_Done_None:
  assumes "step srt e w = Inr w'" "call w' = Some (Done None)"
  shows "call w = Some (Done None) \<or> changed (jq w) = None"
  using assms
  by (cases e)
     (auto simp: with_queue_def resume_def next_head_def next_timer_def
           split: option.splits frame.splits sum.splits if_splits)

lemma step_nil_means_destroyed:
  assumes d: "nil_means_destroyed w" and s: "step srt e w = Inr w'"
  shows "nil_means_destroyed w'"
proof -
  have keep: "changed (jq w) = None \<Longrightarrow> changed (jq w') = None"
    using s by (rule step_changed_None)
  have log: "v = Next_value r \<and> (r = None \<longrightarrow> changed (jq w') = None)"
    if "(r, v, t) \<in> set (returns w')" for r v t
  proof -
    from step_returns_cases [OF s] that
    have "(r, v, t) \<in> set (returns w) \<or>
          (call w = Some (Done r) \<and> v = Next_value r \<and> jq w' = jq w)"
      by auto
    then show ?thesis using d keep by (fastforce simp: nil_means_destroyed_def)
  qed
  have fr: "changed (jq w') = None" if "call w' = Some (Done None)"
    using step_Done_None [OF s that] d keep by (auto simp: nil_means_destroyed_def)
  show ?thesis
    unfolding nil_means_destroyed_def using log fr by auto
qed

lemma Next_value_Empty:
  "Next_value r = Empty \<longleftrightarrow> r = None \<or> (\<exists>e. r = Some e \<and> getItem e = Some nil)"
  by (auto simp: Next_value_def split: option.splits item.splits)

text \<open>
  Claim C4, amended. \<open>Next\<close> returns the empty value when the queue was
  destroyed before the call, and when it is destroyed while the call waits on
  the current channel. In any run, \<open>next\<close> returns nil only on a destroyed
  queue, and \<open>Next\<close> returns the empty value only then or when the entry it
  delivers carries the payload nil; every other value is the payload or the
  entry delivered.
\<close>

theorem Next_empty_cases:
  "(changed (jq u) = None \<and> call u = None \<longrightarrow>
      exec srt solo u = Inr (u\<lparr>returns := returns u @ [(None, Empty, clock u)]\<rparr>)) \<and>
   (chan_ok (jq u) \<and> changed (jq u) = Some c \<and> (call u = Some (Recv c) \<or> call u = Some (Select i c d)) \<longrightarrow>
      exec srt [DoDestroy, OnChanged, Check, Return] u =
        Inr (u\<lparr>jq := (jq u)\<lparr>queue := [], closed := closed (jq u) @ [c], changed := None\<rparr>,
               call := None, returns := returns u @ [(None, Empty, clock u)]\<rparr>)) \<and>
   (call w = None \<and> returns w = [] \<and> exec srt es w = Inr w' \<and> (r, v, t) \<in> set (returns w') \<longrightarrow>
      v = Next_value r \<and>
      (r = None \<longrightarrow> changed (jq w') = None) \<and>
      (v = Empty \<longleftrightarrow> r = None \<or> (\<exists>e. r = Some e \<and> getItem e = Some nil)))"
proof (intro conjI impI)
  assume "changed (jq u) = None \<and> call u = None"
  then show "exec srt solo u = Inr (u\<lparr>returns := returns u @ [(None, Empty, clock u)]\<rparr>)"
    by (simp add: solo_def resume_def next_head_def Next_value_def)
next
  assume a: "chan_ok (jq u) \<and> changed (jq u) = Some c \<and>
             (call u = Some (Recv c) \<or> call u = Some (Select i c d))"
  then have "c \<notin> set (closed (jq u))" by (auto simp: chan_ok_def)
  with a show "exec srt [DoDestroy, OnChanged, Check, Return] u =
        Inr (u\<lparr>jq := (jq u)\<lparr>queue := [], closed := closed (jq u) @ [c], changed := None\<rparr>,
               call := None, returns := returns u @ [(None, Empty, clock u)]\<rparr>)"
    by (auto simp: with_queue_def Destroy_def close_chan_def resume_def next_head_def Next_value_def)
next
  assume a: "call w = None \<and> returns w = [] \<and> exec srt es w = Inr w' \<and> (r, v, t) \<in> set (returns w')"
  then have "nil_means_destroyed w" by (simp add: nil_means_destroyed_def)
  then have "nil_means_destroyed w'"
    using a by (intro exec_preserves [where P = nil_means_destroyed and w = w and w' = w'])
               (auto intro: step_nil_means_destroyed)
  then have *: "v = Next_value r \<and> (r = None \<longrightarrow> changed (jq w') = None)"
    using a by (fastforce simp: nil_means_destroyed_def)
  then show "v = Next_value r" "r = None \<Longrightarrow> changed (jq w') = None"
    by auto
  from * show "v = Empty \<longleftrightarrow> r = None \<or> (\<exists>e. r = Some e \<and> getItem e = Some nil)"
    by (simp add: Next_value_Empty)
qed

theorem Next_empty_cases_witness:
  "exec insertionSort solo
     \<lparr>jq = \<lparr>queue = ([] :: (nat, nat) JITItem list), changed = None, closed = [0], chans = 1\<rparr>,
      clock = 4, call = None, returns = []\<rparr> =
     Inr \<lparr>jq = \<lparr>queue = [], changed = None, closed = [0], chans = 1\<rparr>,
           clock = 4, call = None, returns = [(None, Empty, 4)]\<rparr> \<and>
   chan_ok (NewJIT :: (nat, nat) jitQueue) \<and>
   exec insertionSort [DoDestroy, OnChanged, Check, Return]
     \<lparr>jq = (NewJIT :: (nat, nat) jitQueue), clock = 4, call = Some (Recv 0), returns = []\<rparr> =
     Inr \<lparr>jq = \<lparr>queue = [], changed = None, closed = [0], chans = 1\<rparr>,
           clock = 4, call = None, returns = [(None, Empty, 4)]\<rparr> \<and>
   exec insertionSort (DoSchedule 0 nil 0 # solo) (start 1 :: (nat, nat) world) =
     Inr \<lparr>jq = \<lparr>queue = [], changed = Some 1, closed = [0], chans = 2\<rparr>,
           clock = 1, call = None, returns = [(Some (jitItem 0 nil 0), Empty, 1)]\<rparr> \<and>
   (Empty :: (nat, nat) result) = Next_value (Some (jitItem 0 nil 0)) \<and>
   getItem (jitItem 0 nil 0 :: (nat, nat) JITItem) = Some nil"
proof -
  let ?u = "\<lparr>jq = \<lparr>queue = ([] :: (nat, nat) JITItem list), changed = None, closed = [0], chans = 1\<rparr>,
      clock = 4, call = None, returns = []\<rparr>"
  let ?b = "\<lparr>jq = (NewJIT :: (nat, nat) jitQueue), clock = 4, call = Some (Recv 0), returns = []\<rparr>"
  let ?w' = "\<lparr>jq = \<lparr>queue = ([] :: (nat, nat) JITItem list), changed = Some 1, closed = [0], chans = 2\<rparr>,
           clock = 1, call = None, returns = [(Some (jitItem 0 nil 0), Empty, 1)]\<rparr>"
  have ok: "chan_ok (NewJIT :: (nat, nat) jitQueue)"
    by (simp add: chan_ok_def NewJIT_def)
  have e: "exec insertionSort (DoSchedule 0 nil 0 # solo) (start 1 :: (nat, nat) world) = Inr ?w'"
    by (simp add: run_simps)
  have s: "call (start 1 :: (nat, nat) world) = None" "returns (start 1 :: (nat, nat) world) = []"
    by (simp_all add: start_def)
  have m: "(Some (jitItem 0 nil 0), Empty, 1) \<in> set (returns ?w')" by simp
  from Next_empty_cases [where u = ?u and srt = insertionSort and c = 0 and w = "start 1"
      and es = "DoSchedule 0 nil 0 # solo" and w' = ?w' and r = "Some (jitItem 0 nil 0)"
      and v = Empty and t = 1]
    Next_empty_cases [where u = ?b and srt = insertionSort and c = 0 and w = "start 1"
      and es = "DoSchedule 0 nil 0 # solo" and w' = ?w' and r = "Some (jitItem 0 nil 0)"
      and v = Empty and t = 1]
    ok e s m
  show ?thesis by (simp add: NewJIT_def)
qed

text \<open>
  Claim C4 as stated says that on a live queue \<open>Next\<close> never returns the
  empty value, whatever the payload. \<open>Schedule(nil, 0)\<close> on a new queue and
  one call of \<open>Next\<close> at time 1: the call returns \<open>getItem()\<close> of the entry,
  which is nil, and the queue has not been destroyed.
\<close>

theorem nil_payload_on_live_queue:
  "exec insertionSort (DoSchedule 0 nil 0 # solo) (start 1 :: (nat, nat) world) =
     Inr \<lparr>jq = \<lparr>queue = [], changed = Some 1, closed = [0], chans = 2\<rparr>,
           clock = 1, call = None, returns = [(Some (jitItem 0 nil 0), Empty, 1)]\<rparr>"
  by (simp add: run_simps)

subsection \<open>What Next hands over\<close>

lemma sort_Sort_single: "sort_Sort srt \<Longrightarrow> srt [i] = [i]"
  using sort_Sort_mset [of srt "[i]"] by simp

lemma add_empty_live:
  assumes "sort_Sort srt" "chan_ok q" "changed q = Some c" "queue q = []"
  shows "add srt q i = Inr (q\<lparr>queue := [i], closed := closed q @ [c],
                             changed := Some (chans q), chans := Suc (chans q)\<rparr>)"
  using assms(4) by (simp add: add_live [OF assms(1-3)] sort_Sort_single [OF assms(1)])

lemma add_then_solo:
  assumes "sort_Sort srt" "chan_ok (jq w)" "changed (jq w) = Some c" "queue (jq w) = []"
          "call w = None" "Time i \<le> clock w"
  shows "\<exists>w'. exec srt (DoAdd i # solo) w = Inr w' \<and>
              returns w' = returns w @ [(Some i, Next_value (Some i), clock w)]"
proof -
  let ?q = "(jq w)\<lparr>queue := [i], closed := closed (jq w) @ [c],
                   changed := Some (chans (jq w)), chans := Suc (chans (jq w))\<rparr>"
  have "step srt (DoAdd i) w = Inr (w\<lparr>jq := ?q\<rparr>)"
    by (simp add: with_queue_def Add_def add_empty_live [OF assms(1-4)])
  moreover have "exec srt solo (w\<lparr>jq := ?q\<rparr>) =
      Inr (w\<lparr>jq := ?q\<rparr>\<lparr>jq := (jq (w\<lparr>jq := ?q\<rparr>))\<lparr>queue := []\<rparr>, call := None,
            returns := returns (w\<lparr>jq := ?q\<rparr>) @ [(Some i, Next_value (Some i), clock (w\<lparr>jq := ?q\<rparr>))]\<rparr>)"
    by (rule solo_Next [where c = "chans (jq w)"]) (use assms in simp_all)
  ultimately show ?thesis by simp
qed

text \<open>
  Claim C9. On a live, empty queue: after \<open>Schedule(x, t)\<close> a call of
  \<open>Next\<close> at or after \<open>t\<close> returns the payload \<open>x\<close> itself; after \<open>Add\<close> of a
  caller's item without \<open>getItem\<close> it returns that item; after \<open>Add\<close> of an
  item that has \<open>getItem\<close> it returns what \<open>getItem\<close> gives. In any run, the
  value \<open>Next\<close> returns for an entry is decided by that type assertion
  alone.
\<close>

theorem Next_unwraps_scheduled:
  assumes "sort_Sort srt" "chan_ok (jq w)" "changed (jq w) = Some c" "queue (jq w) = []"
          "call w = None" "t \<le> clock w"
  shows "(\<exists>w'. exec srt (DoSchedule a x t # solo) w = Inr w' \<and>
            returns w' = returns w @
              [(Some (jitItem a x t), (case x of nil \<Rightarrow> Empty | Val v \<Rightarrow> Payload v), clock w)]) \<and>
         (\<exists>w'. exec srt (DoAdd (Other k t None) # solo) w = Inr w' \<and>
            returns w' = returns w @ [(Some (Other k t None), Entry (Other k t None), clock w)]) \<and>
         (\<exists>w'. exec srt (DoAdd (Other k t (Some x)) # solo) w = Inr w' \<and>
            returns w' = returns w @
              [(Some (Other k t (Some x)), (case x of nil \<Rightarrow> Empty | Val v \<Rightarrow> Payload v), clock w)]) \<and>
         (call u = None \<and> returns u = [] \<and> exec srt es u = Inr u' \<and> (Some e, r, t') \<in> set (returns u') \<longrightarrow>
            r = (case getItem e of None \<Rightarrow> Entry e | Some nil \<Rightarrow> Empty | Some (Val v) \<Rightarrow> Payload v))"
proof (intro conjI impI)
  have "\<exists>w'. exec srt (DoAdd (jitItem a x t) # solo) w = Inr w' \<and>
         returns w' = returns w @ [(Some (jitItem a x t), Next_value (Some (jitItem a x t)), clock w)]"
    by (rule add_then_solo [OF assms(1-5)]) (use assms(6) in simp)
  then show "\<exists>w'. exec srt (DoSchedule a x t # solo) w = Inr w' \<and>
            returns w' = returns w @
              [(Some (jitItem a x t), (case x of nil \<Rightarrow> Empty | Val v \<Rightarrow> Payload v), clock w)]"
    by (simp add: Schedule_def Next_value_def)
next
  show "\<exists>w'. exec srt (DoAdd (Other k t None) # solo) w = Inr w' \<and>
            returns w' = returns w @ [(Some (Other k t None), Entry (Other k t None), clock w)]"
    using add_then_solo [OF assms(1-5), of "Other k t None"] assms(6)
    by (simp add: Next_value_def)
next
  show "\<exists>w'. exec srt (DoAdd (Other k t (Some x)) # solo) w = Inr w' \<and>
            returns w' = returns w @
              [(Some (Other k t (Some x)), (case x of nil \<Rightarrow> Empty | Val v \<Rightarrow> Payload v), clock w)]"
    using add_then_solo [OF assms(1-5), of "Other k t (Some x)"] assms(6)
    by (simp add: Next_value_def)
next
  assume a: "call u = None \<and> returns u = [] \<and> exec srt es u = Inr u' \<and> (Some e, r, t') \<in> set (returns u')"
  then have "nil_means_destroyed u" by (simp add: nil_means_destroyed_def)
  then have "nil_means_destroyed u'"
    using a by (intro exec_preserves [where P = nil_means_destroyed and w = u and w' = u'])
               (auto intro: step_nil_means_destroyed)
  then have "r = Next_value (Some e)"
    using a by (fastforce simp: nil_means_destroyed_def)
  then show "r = (case getItem e of None \<Rightarrow> Entry e | Some nil \<Rightarrow> Empty | Some (Val v) \<Rightarrow> Payload v)"
    by (simp add: Next_value_def)
qed

theorem Next_unwraps_scheduled_witness:
  "sort_Sort (insertionSort :: (nat, nat) JITItem list \<Rightarrow> (nat, nat) JITItem list) \<and>
   chan_ok (jq (start 3 :: (nat, nat) world)) \<and>
   exec insertionSort (DoSchedule 0 (Val (7::nat)) 2 # solo) (start 3 :: (nat, nat) world) =
     Inr \<lparr>jq = \<lparr>queue = [], changed = Some 1, closed = [0], chans = 2\<rparr>, clock = 3, call = None,
           returns = [(Some (jitItem 0 (Val 7) 2), Payload 7, 3)]\<rparr> \<and>
   exec insertionSort (DoAdd (Other (9::nat) 2 None) # solo) (start 3 :: (nat, nat) world) =
     Inr \<lparr>jq = \<lparr>queue = [], changed = Some 1, closed = [0], chans = 2\<rparr>, clock = 3, call = None,
           returns = [(Some (Other 9 2 None), Entry (Other 9 2 None), 3)]\<rparr> \<and>
   exec insertionSort (DoAdd (Other (9::nat) 2 (Some (Val (7::nat)))) # solo) (start 3 :: (nat, nat) world) =
     Inr \<lparr>jq = \<lparr>queue = [], changed = Some 1, closed = [0], chans = 2\<rparr>, clock = 3, call = None,
           returns = [(Some (Other 9 2 (Some (Val 7))), Payload 7, 3)]\<rparr> \<and>
   (\<exists>w'. exec insertionSort (DoSchedule 0 (Val (7::nat)) 2 # solo) (start 3 :: (nat, nat) world) = Inr w' \<and>
         returns w' = [(Some (jitItem 0 (Val 7) 2), Payload 7, 3)]) \<and>
   (Entry (Other 9 2 None) :: (nat, nat) result) =
     (case getItem (Other (9::nat) 2 (None :: nat item option)) of None \<Rightarrow> Entry (Other 9 2 None)
      | Some nil \<Rightarrow> Empty | Some (Val v) \<Rightarrow> Payload v)"
proof -
  let ?es = "DoAdd (Other (9::nat) 2 None) # solo :: (nat, nat) event list"
  let ?u' = "\<lparr>jq = \<lparr>queue = ([] :: (nat, nat) JITItem list), changed = Some 1, closed = [0], chans = 2\<rparr>,
           clock = 3, call = None,
           returns = [(Some (Other 9 2 None), Entry (Other 9 2 None), 3)]\<rparr>"
  have s: "sort_Sort (insertionSort :: (nat, nat) JITItem list \<Rightarrow> (nat, nat) JITItem list)"
    by (rule sort_Sort_insertionSort)
  have h: "chan_ok (jq (start 3 :: (nat, nat) world))" "changed (jq (start 3 :: (nat, nat) world)) = Some 0"
    "queue (jq (start 3 :: (nat, nat) world)) = []" "call (start 3 :: (nat, nat) world) = None"
    "(2::int) \<le> clock (start 3 :: (nat, nat) world)"
    by (simp_all add: start_def NewJIT_def chan_ok_def)
  have e: "exec insertionSort (DoSchedule 0 (Val (7::nat)) 2 # solo) (start 3 :: (nat, nat) world) =
     Inr \<lparr>jq = \<lparr>queue = [], changed = Some 1, closed = [0], chans = 2\<rparr>, clock = 3, call = None,
           returns = [(Some (jitItem 0 (Val 7) 2), Payload 7, 3)]\<rparr>"
   "exec insertionSort ?es (start 3 :: (nat, nat) world) = Inr ?u'"
   "exec insertionSort (DoAdd (Other (9::nat) 2 (Some (Val (7::nat)))) # solo) (start 3 :: (nat, nat) world) =
     Inr \<lparr>jq = \<lparr>queue = [], changed = Some 1, closed = [0], chans = 2\<rparr>, clock = 3, call = None,
           returns = [(Some (Other 9 2 (Some (Val 7))), Payload 7, 3)]\<rparr>"
    by (simp_all add: run_simps)
  have r: "returns (start 3 :: (nat, nat) world) = []" by (simp add: start_def)
  have m: "(Some (Other 9 2 None), Entry (Other 9 2 None), 3) \<in> set (returns ?u')" by simp
  note th = Next_unwraps_scheduled [OF s h, of 0 "Val 7" 9 "start 3" ?es ?u' "Other 9 2 None"
      "Entry (Other 9 2 None)" 3]
  from th h(4) r e(2) m
  have g: "(Entry (Other 9 2 None) :: (nat, nat) result) =
        (case getItem (Other (9::nat) 2 (None :: nat item option)) of None \<Rightarrow> Entry (Other 9 2 None)
         | Some nil \<Rightarrow> Empty | Some (Val v) \<Rightarrow> Payload v)"
    by blast
  from th
  have "\<exists>w'. exec insertionSort (DoSchedule 0 (Val (7::nat)) 2 # solo) (start 3 :: (nat, nat) world) = Inr w' \<and>
         returns w' = [(Some (jitItem 0 (Val 7) 2), Payload 7, 3)]"
    by (simp add: start_def)
  with s h(1) e g show ?thesis by simp
qed

subsection \<open>Order of delivery\<close>

lemma step_inserted:
  "inserted e = Some i \<Longrightarrow> step srt e w = with_queue w (add srt (jq w) i)"
  by (cases e) (auto simp: Add_def Schedule_def)

lemma add_stays_live:
  assumes "sort_Sort srt" "chan_ok q" "changed q \<noteq> None" "add srt q i = Inr q'"
  shows "changed q' \<noteq> None"
proof -
  obtain c where c: "changed q = Some c" using assms(3) by auto
  show ?thesis using assms(4) c by (auto simp: add_live [OF assms(1,2) c] split: if_splits)
qed

lemma exec_inserts:
  assumes "sort_Sort srt"
  shows "chan_ok (jq w) \<Longrightarrow> changed (jq w) \<noteq> None \<Longrightarrow> sorted (map Time (queue (jq w))) \<Longrightarrow>
         \<forall>e\<in>set ops. inserted e \<noteq> None \<Longrightarrow>
         \<exists>w'. exec srt ops w = Inr w' \<and> chan_ok (jq w') \<and> changed (jq w') \<noteq> None \<and>
              sorted (map Time (queue (jq w'))) \<and>
              mset (queue (jq w')) = mset (queue (jq w)) + mset (map (\<lambda>e. the (inserted e)) ops) \<and>
              clock w' = clock w \<and> call w' = call w \<and> returns w' = returns w"
proof (induction ops arbitrary: w)
  case Nil
  then show ?case by simp
next
  case (Cons e ops)
  from Cons.prems(4) obtain i where i: "inserted e = Some i" by auto
  obtain q1 where q1: "add srt (jq w) i = Inr q1" "chan_ok q1"
    using add_chan_ok [OF assms Cons.prems(1)] by blast
  have live: "changed q1 \<noteq> None"
    using add_stays_live [OF assms Cons.prems(1,2) q1(1)] .
  have srtd: "sorted (map Time (queue q1))"
    using add_sorted [OF assms Cons.prems(3) q1(1)] .
  have ms: "mset (queue q1) = add_mset i (mset (queue (jq w)))"
    using add_queue [OF assms Cons.prems(1,2) q1(1)] .
  have st: "step srt e w = Inr (w\<lparr>jq := q1\<rparr>)"
    by (simp add: step_inserted [OF i] q1(1) with_queue_def)
  have "\<exists>w'. exec srt ops (w\<lparr>jq := q1\<rparr>) = Inr w' \<and> chan_ok (jq w') \<and> changed (jq w') \<noteq> None \<and>
              sorted (map Time (queue (jq w'))) \<and>
              mset (queue (jq w')) = mset (queue (jq (w\<lparr>jq := q1\<rparr>))) + mset (map (\<lambda>e. the (inserted e)) ops) \<and>
              clock w' = clock (w\<lparr>jq := q1\<rparr>) \<and> call w' = call (w\<lparr>jq := q1\<rparr>) \<and>
              returns w' = returns (w\<lparr>jq := q1\<rparr>)"
    by (rule Cons.IH) (use q1 live srtd Cons.prems(4) in simp_all)
  then show ?case using st ms i by auto
qed

lemma exec_solos:
  "changed (jq w) = Some c \<Longrightarrow> queue (jq w) = s \<Longrightarrow> \<forall>e\<in>set s. Time e \<le> clock w \<Longrightarrow>
   call w = None \<Longrightarrow>
   exec srt (concat (replicate (length s) solo)) w =
     Inr (w\<lparr>jq := (jq w)\<lparr>queue := []\<rparr>, call := None,
            returns := returns w @ map (\<lambda>e. (Some e, Next_value (Some e), clock w)) s\<rparr>)"
proof (induction s arbitrary: w)
  case Nil
  then show ?case by simp
next
  case (Cons e s)
  let ?w1 = "w\<lparr>jq := (jq w)\<lparr>queue := s\<rparr>, call := None,
                returns := returns w @ [(Some e, Next_value (Some e), clock w)]\<rparr>"
  have one: "exec srt solo w = Inr ?w1"
    by (rule solo_Next [where c = c]) (use Cons.prems in simp_all)
  have rest: "exec srt (concat (replicate (length s) solo)) ?w1 =
     Inr (?w1\<lparr>jq := (jq ?w1)\<lparr>queue := []\<rparr>, call := None,
            returns := returns ?w1 @ map (\<lambda>e. (Some e, Next_value (Some e), clock ?w1)) s\<rparr>)"
    by (rule Cons.IH) (use Cons.prems in simp_all)
  show ?case
    by (simp add: exec_append one rest)
qed

lemma step_front_taken:
  assumes f: "front_taken s w" and q: "quiet e" and st: "step srt e w = Inr w'"
  shows "front_taken s w'"
proof (cases e)
  case Check
  show ?thesis
  proof (cases "call w")
    case None
    then show ?thesis using f st Check by simp
  next
    case (Some fr)
    then show ?thesis using f st Check
      by (cases fr; cases "queue (jq w)")
         (auto simp: front_taken_def taken_def resume_def next_head_def isEmpty_def
               split: option.splits if_splits)
  qed
next
  case OnTimer
  show ?thesis
  proof (cases "call w")
    case None
    then show ?thesis using f st OnTimer by simp
  next
    case (Some fr)
    then show ?thesis using f st OnTimer
      by (cases fr; cases "queue (jq w)")
         (auto simp: front_taken_def taken_def resume_def next_timer_def isEmpty_def
               split: if_splits)
  qed
next
  case OnChanged
  then show ?thesis using f st
    by (auto simp: front_taken_def taken_def split: option.splits frame.splits if_splits)
next
  case Return
  then show ?thesis using f st
    by (auto simp: front_taken_def taken_def split: option.splits frame.splits)
next
  case CallNext
  then show ?thesis using f st
    by (auto simp: front_taken_def taken_def split: option.splits frame.splits)
qed (use f q st in \<open>auto simp: front_taken_def taken_def\<close>)

lemma exec_front_taken:
  "front_taken s w \<Longrightarrow> \<forall>e\<in>set sch. quiet e \<Longrightarrow> exec srt sch w = Inr w' \<Longrightarrow> front_taken s w'"
proof (induction sch arbitrary: w)
  case Nil
  then show ?case by simp
next
  case (Cons e sch)
  then show ?case
    by (auto split: sum.splits dest: step_front_taken)
qed

lemma map_Some_the: "None \<notin> set xs \<Longrightarrow> map Some (map the xs) = xs"
  by (induction xs) auto

lemma front_taken_log:
  assumes "front_taken s w" "sorted (map Time s)"
  shows "\<exists>rs. map fst (returns w) = map Some rs \<and> sorted (map Time rs) \<and> mset rs \<subseteq># mset s"
proof -
  let ?rs = "map the (map fst (returns w))"
  have nn: "None \<notin> set (map fst (returns w))"
    using assms(1) by (auto simp: front_taken_def taken_def)
  have "map Some ?rs = map fst (returns w)"
    using nn by (rule map_Some_the)
  moreover obtain rest where s: "s = ?rs @ rest"
    using assms(1) by (auto simp: front_taken_def taken_def)
  then have "sorted (map Time ?rs)" "mset ?rs \<subseteq># mset s"
    using assms(2) by (auto simp: sorted_append simp del: map_map)
  ultimately show ?thesis by metis
qed

lemma log_values:
  assumes "call w = None" "returns w = []" "exec srt es w = Inr w'"
  shows "map (fst \<circ> snd) (returns w') = map (\<lambda>x. Next_value (fst x)) (returns w')"
proof -
  have "nil_means_destroyed w" using assms(1,2) by (simp add: nil_means_destroyed_def)
  then have "nil_means_destroyed w'"
    using assms(3)
    by (rule exec_preserves [where P = nil_means_destroyed, rotated]) (rule step_nil_means_destroyed)
  then show ?thesis by (auto simp: nil_means_destroyed_def)
qed

lemma start_facts:
  "chan_ok (jq (start t))" "changed (jq (start t)) \<noteq> None" "queue (jq (start t)) = []"
  "clock (start t) = t" "call (start t) = None" "returns (start t) = []"
  by (simp_all add: start_def NewJIT_def chan_ok_def)

text \<open>
  Claim C2. Entries are put into a new queue by any sequence \<open>ops\<close> of
  calls of \<open>Add\<close> and \<open>Schedule\<close>. Whatever the calls of \<open>Next\<close> and the clock
  do afterwards (\<open>sch\<close>, with no producer and no \<open>Destroy\<close>), the entries
  returned are among those inserted and come in non-decreasing order of due
  time, each with its payload. Once every due time has elapsed, as many calls
  of \<open>Next\<close> as there were insertions return all the entries, each once, in
  that order, and leave the queue empty.
\<close>

theorem delivery_in_due_order:
  assumes "sort_Sort srt" and "\<forall>e\<in>set ops. inserted e \<noteq> None"
  shows "((\<forall>e\<in>set sch. quiet e) \<and> exec srt (ops @ sch) (start t0) = Inr w' \<longrightarrow>
            (\<exists>rs. map fst (returns w') = map Some rs \<and>
                  map (fst \<circ> snd) (returns w') = map (\<lambda>e. Next_value (Some e)) rs \<and>
                  sorted (map Time rs) \<and>
                  mset rs \<subseteq># mset (map (\<lambda>e. the (inserted e)) ops))) \<and>
         ((\<forall>e\<in>set ops. Time (the (inserted e)) \<le> t0 + int d) \<longrightarrow>
            (\<exists>w rs. exec srt (ops @ Tick d # concat (replicate (length ops) solo)) (start t0) = Inr w \<and>
                  map fst (returns w) = map Some rs \<and>
                  map (fst \<circ> snd) (returns w) = map (\<lambda>e. Next_value (Some e)) rs \<and>
                  sorted (map Time rs) \<and>
                  mset rs = mset (map (\<lambda>e. the (inserted e)) ops) \<and>
                  queue (jq w) = []))"
proof -
  obtain w1 where w1: "exec srt ops (start t0) = Inr w1" "chan_ok (jq w1)" "changed (jq w1) \<noteq> None"
      "sorted (map Time (queue (jq w1)))"
      "mset (queue (jq w1)) = mset (map (\<lambda>e. the (inserted e)) ops)"
      "clock w1 = t0" "call w1 = None" "returns w1 = []"
    using exec_inserts [OF assms(1), of "start t0" ops] assms(2)
    by (auto simp: start_facts)
  let ?s = "queue (jq w1)"
  have part1: "\<exists>rs. map fst (returns w') = map Some rs \<and>
                  map (fst \<circ> snd) (returns w') = map (\<lambda>e. Next_value (Some e)) rs \<and>
                  sorted (map Time rs) \<and>
                  mset rs \<subseteq># mset (map (\<lambda>e. the (inserted e)) ops)"
    if q: "\<forall>e\<in>set sch. quiet e" and ex: "exec srt (ops @ sch) (start t0) = Inr w'"
  proof -
    have ex1: "exec srt sch w1 = Inr w'"
      using ex w1(1) by (simp add: exec_append)
    have "front_taken ?s w1"
      using w1 by (simp add: front_taken_def taken_def)
    then have "front_taken ?s w'"
      using q ex1 by (rule exec_front_taken)
    then obtain rs where rs: "map fst (returns w') = map Some rs" "sorted (map Time rs)"
        "mset rs \<subseteq># mset ?s"
      using front_taken_log w1(4) by blast
    have "map (fst \<circ> snd) (returns w') = map (\<lambda>x. Next_value (fst x)) (returns w')"
      using w1(7,8) ex1 by (rule log_values)
    also have "\<dots> = map Next_value (map fst (returns w'))" by simp
    also have "\<dots> = map (\<lambda>e. Next_value (Some e)) rs" by (simp add: rs(1))
    finally show ?thesis using rs w1(5) by auto
  qed
  have part2: "\<exists>w rs. exec srt (ops @ Tick d # concat (replicate (length ops) solo)) (start t0) = Inr w \<and>
                  map fst (returns w) = map Some rs \<and>
                  map (fst \<circ> snd) (returns w) = map (\<lambda>e. Next_value (Some e)) rs \<and>
                  sorted (map Time rs) \<and>
                  mset rs = mset (map (\<lambda>e. the (inserted e)) ops) \<and>
                  queue (jq w) = []"
    if due: "\<forall>e\<in>set ops. Time (the (inserted e)) \<le> t0 + int d"
  proof -
    let ?w2 = "w1\<lparr>clock := t0 + int d\<rparr>"
    obtain c where c: "changed (jq ?w2) = Some c" using w1(3) by auto
    have "set ?s = set (map (\<lambda>e. the (inserted e)) ops)"
      using w1(5) by (rule mset_eq_setD)
    then have d2: "\<forall>e\<in>set ?s. Time e \<le> clock ?w2"
      using due by auto
    have len: "length ?s = length ops"
      using w1(5) by (metis length_map size_mset)
    have "exec srt (concat (replicate (length ?s) solo)) ?w2 =
            Inr (?w2\<lparr>jq := (jq ?w2)\<lparr>queue := []\<rparr>, call := None,
                   returns := returns ?w2 @ map (\<lambda>e. (Some e, Next_value (Some e), clock ?w2)) ?s\<rparr>)"
      by (rule exec_solos [OF c _ d2]) (use w1 in simp_all)
    then have "exec srt (ops @ Tick d # concat (replicate (length ops) solo)) (start t0) =
            Inr (?w2\<lparr>jq := (jq ?w2)\<lparr>queue := []\<rparr>, call := None,
                   returns := returns ?w2 @ map (\<lambda>e. (Some e, Next_value (Some e), clock ?w2)) ?s\<rparr>)"
      using w1(1,6) len by (simp add: exec_append)
    then show ?thesis
      using w1(4,5,8) by (intro exI [where x = ?s] exI) (auto simp: comp_def)
  qed
  show ?thesis using part1 part2 by blast
qed

theorem delivery_in_due_order_witness:
  "sort_Sort (insertionSort :: (nat, nat) JITItem list \<Rightarrow> (nat, nat) JITItem list) \<and>
   list_all (\<lambda>e. inserted e \<noteq> None) [DoSchedule 0 (Val (10::nat)) 5, DoAdd (Other (1::nat) 2 None)] \<and>
   list_all quiet [CallNext, Check, Tick 3, OnTimer, Return :: (nat, nat) event] \<and>
   exec insertionSort
     ([DoSchedule 0 (Val (10::nat)) 5, DoAdd (Other (1::nat) 2 None)] @
      [CallNext, Check, Tick 3, OnTimer, Return]) (start 0) =
     Inr \<lparr>jq = \<lparr>queue = [jitItem 0 (Val 10) 5], changed = Some 2, closed = [0, 1], chans = 3\<rparr>,
           clock = 3, call = None,
           returns = [(Some (Other 1 2 None), Entry (Other 1 2 None), 3)]\<rparr> \<and>
   exec insertionSort
     ([DoSchedule 0 (Val (10::nat)) 5, DoAdd (Other (1::nat) 2 None)] @
      Tick 5 # concat (replicate 2 solo)) (start 0) =
     Inr \<lparr>jq = \<lparr>queue = [], changed = Some 2, closed = [0, 1], chans = 3\<rparr>,
           clock = 5, call = None,
           returns = [(Some (Other 1 2 None), Entry (Other 1 2 None), 5),
                      (Some (jitItem 0 (Val 10) 5), Payload 10, 5)]\<rparr> \<and>
   (\<exists>rs. [Some (Other (1::nat) 2 None), Some (jitItem 0 (Val (10::nat)) 5)] = map Some rs \<and>
         sorted (map Time rs) \<and>
         mset rs = {#jitItem 0 (Val 10) 5, Other 1 2 None#})"
proof -
  let ?ops = "[DoSchedule 0 (Val (10::nat)) 5, DoAdd (Other (1::nat) 2 None)]"
  let ?sch = "[CallNext, Check, Tick 3, OnTimer, Return] :: (nat, nat) event list"
  let ?w1 = "\<lparr>jq = \<lparr>queue = [jitItem 0 (Val (10::nat)) 5 :: (nat, nat) JITItem], changed = Some 2, closed = [0, 1], chans = 3\<rparr>,
           clock = 3, call = None,
           returns = [(Some (Other 1 2 None), Entry (Other 1 2 None), 3)]\<rparr>"
  let ?w2 = "\<lparr>jq = \<lparr>queue = ([] :: (nat, nat) JITItem list), changed = Some 2, closed = [0, 1], chans = 3\<rparr>,
           clock = 5, call = None,
           returns = [(Some (Other 1 2 None), Entry (Other 1 2 None), 5),
                      (Some (jitItem 0 (Val 10) 5), Payload 10, 5)]\<rparr>"
  have s: "sort_Sort (insertionSort :: (nat, nat) JITItem list \<Rightarrow> (nat, nat) JITItem list)"
    by (rule sort_Sort_insertionSort)
  have i: "\<forall>e\<in>set ?ops. inserted e \<noteq> None" by simp
  have q: "\<forall>e\<in>set ?sch. quiet e" by simp
  have d: "\<forall>e\<in>set ?ops. Time (the (inserted e)) \<le> 0 + int 5" by simp
  have e1: "exec insertionSort (?ops @ ?sch) (start 0) = Inr ?w1"
    by (simp add: run_simps)
  have e2: "exec insertionSort (?ops @ Tick 5 # concat (replicate 2 solo)) (start 0) = Inr ?w2"
    by (simp add: run_simps numeral_2_eq_2)
  note th = delivery_in_due_order [OF s i, of ?sch 0 ?w1 5]
  have e2': "exec insertionSort (?ops @ Tick 5 # concat (replicate (length ?ops) solo)) (start 0) = Inr ?w2"
    using e2 by (simp add: numeral_2_eq_2)
  from th q e1 obtain rs1 where r1: "map fst (returns ?w1) = map Some rs1" "sorted (map Time rs1)"
    by blast
  from th d obtain w rs where wr:
      "exec insertionSort (?ops @ Tick 5 # concat (replicate (length ?ops) solo)) (start 0) = Inr w"
      "map fst (returns w) = map Some rs" "sorted (map Time rs)"
      "mset rs = mset (map (\<lambda>e. the (inserted e)) ?ops)"
    by blast
  have "w = ?w2" using wr(1) e2' by simp
  then have "[Some (Other (1::nat) 2 None), Some (jitItem 0 (Val (10::nat)) 5)] = map Some rs \<and>
         sorted (map Time rs) \<and> mset rs = {#jitItem 0 (Val 10) 5, Other 1 2 None#}"
    using wr(2-4) by simp
  then have "\<exists>rs. [Some (Other (1::nat) 2 None), Some (jitItem 0 (Val (10::nat)) 5)] = map Some rs \<and>
         sorted (map Time rs) \<and> mset rs = {#jitItem 0 (Val 10) 5, Other 1 2 None#}"
    by (rule exI)
  with s e1 e2 show ?thesis by simp
qed

end
